theory Spec2Isabelle
  imports Main "HOL-Library.Product_Lexorder"
begin

section \<open>Data model\<close>

text \<open>
  A cell is a Python tuple \<open>(row, col)\<close> of unbounded integers. A grid is a list of rows,
  every entry \<open>1\<close> for a wall and \<open>0\<close> for an open cell. Python exceptions are values
  of \<open>py_error\<close>; a computation that raises returns \<open>Inl\<close>.
\<close>

type_synonym cell = "int \<times> int"
type_synonym grid = "int list list"

datatype py_error = IndexError | KeyError

datatype status = Searching | GoalReached

text \<open>One neighbor evaluation: the neighbor, its tentative g, its h and its f.\<close>

type_synonym nbr_eval = "cell \<times> int \<times> int \<times> int"

text \<open>The dictionary appended to \<open>steps\<close>, one per pop of the frontier.\<close>

record step_record =
  step_node :: cell
  step_g :: int
  step_h :: int
  step_f :: int
  step_neighbors :: "nbr_eval list"
  step_status :: status

text \<open>
  Python list indexing \<open>xs[i]\<close>: an index below zero counts from the end, an index out
  of range raises IndexError.
\<close>

definition py_get :: "'a list \<Rightarrow> int \<Rightarrow> py_error + 'a" where
  "py_get xs i =
     (let len = int (length xs) in
      if 0 \<le> i \<and> i < len then Inr (xs ! nat i)
      else if - len \<le> i \<and> i < 0 then Inr (xs ! nat (len + i))
      else Inl IndexError)"

text \<open>Python list store \<open>xs[i] = v\<close>, with the same index rule.\<close>

definition py_set :: "'a list \<Rightarrow> int \<Rightarrow> 'a \<Rightarrow> py_error + 'a list" where
  "py_set xs i v =
     (let len = int (length xs) in
      if 0 \<le> i \<and> i < len then Inr (xs[nat i := v])
      else if - len \<le> i \<and> i < 0 then Inr (xs[nat (len + i) := v])
      else Inl IndexError)"

text \<open>\<open>grid[r][c]\<close>\<close>

definition grid_get :: "grid \<Rightarrow> int \<Rightarrow> int \<Rightarrow> py_error + int" where
  "grid_get gr r c = (case py_get gr r of Inl e \<Rightarrow> Inl e | Inr row \<Rightarrow> py_get row c)"

text \<open>\<open>grid[r][c] = v\<close>\<close>

definition grid_set :: "grid \<Rightarrow> int \<Rightarrow> int \<Rightarrow> int \<Rightarrow> py_error + grid" where
  "grid_set gr r c v =
     (case py_get gr r of
        Inl e \<Rightarrow> Inl e
      | Inr row \<Rightarrow> (case py_set row c v of Inl e \<Rightarrow> Inl e | Inr row' \<Rightarrow> py_set gr r row'))"

section \<open>The A* search\<close>

definition heuristic :: "cell \<Rightarrow> cell \<Rightarrow> int" where
  "heuristic a b = \<bar>fst a - fst b\<bar> + \<bar>snd a - snd b\<bar>"

text \<open>
  The frontier \<open>open_set\<close> is a \<open>heapq\<close> heap of tuples \<open>(f, cell)\<close>. Python compares
  tuples lexicographically, which is the order of \<open>int \<times> int \<times> int\<close> here, and
  \<open>heappop\<close> returns a least entry. Entries that compare equal are the same tuple, so
  the heap is modelled by the list of its entries: \<open>heappush\<close> adds one, \<open>heappop\<close>
  takes out one occurrence of the minimum.

  \<open>popped\<close> is a history variable, not a variable of the source: it lists the entries
  returned by \<open>heappop\<close> so far, in order.
\<close>

type_synonym entry = "int \<times> cell"

record astar_state =
  open_set :: "entry list"
  came_from :: "cell \<rightharpoonup> cell"
  g_score :: "cell \<rightharpoonup> int"
  steps :: "step_record list"
  popped :: "entry list"

definition heappush :: "entry list \<Rightarrow> entry \<Rightarrow> entry list" where
  "heappush hp e = e # hp"

definition heappop :: "entry list \<Rightarrow> entry \<times> entry list" where
  "heappop hp = (let m = Min (set hp) in (m, remove1 m hp))"

text \<open>
  The body of \<open>for nx, ny in neighbors\<close> for one neighbor. The second component of
  the pair is the local list \<open>neighbors_details\<close>.
\<close>

definition relax_step :: "grid \<Rightarrow> int \<Rightarrow> int \<Rightarrow> cell \<Rightarrow> cell \<Rightarrow> cell \<Rightarrow>
    astar_state \<times> nbr_eval list \<Rightarrow> py_error + astar_state \<times> nbr_eval list" where
  "relax_step gr rows cols goal current nb acc =
     (case (nb, acc) of ((nx, ny), (st, details)) \<Rightarrow>
        if 0 \<le> nx \<and> nx < rows \<and> 0 \<le> ny \<and> ny < cols then
          (case grid_get gr nx ny of
             Inl e \<Rightarrow> Inl e
           | Inr v \<Rightarrow>
               if v = 0 then
                 (case g_score st current of
                    None \<Rightarrow> Inl KeyError
                  | Some gc \<Rightarrow>
                      let tentative_g = gc + 1;
                          h_val = heuristic (nx, ny) goal;
                          f_val = tentative_g + h_val;
                          details' = details @ [((nx, ny), tentative_g, h_val, f_val)]
                      in if (case g_score st (nx, ny) of None \<Rightarrow> True | Some old \<Rightarrow> tentative_g < old)
                         then Inr (st\<lparr>open_set := heappush (open_set st) (f_val, (nx, ny)),
                                     came_from := (came_from st)((nx, ny) \<mapsto> current),
                                     g_score := (g_score st)((nx, ny) \<mapsto> tentative_g)\<rparr>, details')
                         else Inr (st, details'))
               else Inr (st, details))
        else Inr (st, details))"

text \<open>The \<open>for\<close> loop over the remaining neighbors; an exception ends it.\<close>

fun relax :: "grid \<Rightarrow> int \<Rightarrow> int \<Rightarrow> cell \<Rightarrow> cell \<Rightarrow> cell list \<Rightarrow>
    astar_state \<times> nbr_eval list \<Rightarrow> py_error + astar_state \<times> nbr_eval list" where
  "relax gr rows cols goal current [] acc = Inr acc"
| "relax gr rows cols goal current (nb # rest) acc =
     (case relax_step gr rows cols goal current nb acc of
        Inl e \<Rightarrow> Inl e
      | Inr acc' \<Rightarrow> relax gr rows cols goal current rest acc')"

text \<open>
  \<open>while current in came_from: path.append(current); current = came_from[current]\<close>.
  The loop need not end on an arbitrary dictionary, so it is a partial function: no
  result is \<open>None\<close>. It returns the list \<open>path\<close> and the final value of \<open>current\<close>.
\<close>

partial_function (option) walk_back ::
    "(cell \<rightharpoonup> cell) \<Rightarrow> cell \<Rightarrow> cell list \<Rightarrow> (cell list \<times> cell) option" where
  "walk_back cf current path =
     (case cf current of
        None \<Rightarrow> Some (path, current)
      | Some prev \<Rightarrow> walk_back cf prev (path @ [current]))"

declare walk_back.simps [code]

text \<open>
  What \<open>astar\<close> hands back: the pair \<open>(path, steps)\<close>, with \<open>None\<close> for Python's
  \<open>None\<close> path, and the history of pops.
\<close>

type_synonym astar_result = "cell list option \<times> step_record list \<times> entry list"

text \<open>
  One pass through the body of \<open>while open_set\<close>: either the loop goes on with a new
  state, or the function is left (by \<open>return\<close>, by an exception, or, were the walk back
  never to end, with no result at all).
\<close>

datatype pass = Continue astar_state | Leave "(py_error + astar_result) option"

definition astar_pass :: "grid \<Rightarrow> int \<Rightarrow> int \<Rightarrow> cell \<Rightarrow> cell \<Rightarrow> astar_state \<Rightarrow> pass" where
  "astar_pass gr rows cols start goal st =
     (if open_set st = [] then Leave (Some (Inr (None, steps st, popped st)))
      else
        (case heappop (open_set st) of ((current_f, current), hp) \<Rightarrow>
           let st1 = st\<lparr>open_set := hp, popped := popped st @ [(current_f, current)]\<rparr> in
           (case g_score st1 current of
              None \<Rightarrow> Leave (Some (Inl KeyError))
            | Some current_g \<Rightarrow>
                let current_h = heuristic current goal in
                if current = goal then
                  Leave (map_option
                    (\<lambda>(path, cur).
                       Inr (Some (rev (path @ [start])),
                            steps st1 @
                              [\<lparr>step_node = cur, step_g = current_g, step_h = current_h,
                                step_f = current_f, step_neighbors = [],
                                step_status = GoalReached\<rparr>],
                            popped st1))
                    (walk_back (came_from st1) current []))
                else
                  (case relax gr rows cols goal current
                          [(fst current + 1, snd current), (fst current - 1, snd current),
                           (fst current, snd current + 1), (fst current, snd current - 1)]
                          (st1, []) of
                     Inl e \<Rightarrow> Leave (Some (Inl e))
                   | Inr (st2, neighbors_details) \<Rightarrow>
                       Continue
                         (st2\<lparr>steps := steps st2 @
                            [\<lparr>step_node = current, step_g = current_g, step_h = current_h,
                              step_f = current_f, step_neighbors = neighbors_details,
                              step_status = Searching\<rparr>]\<rparr>)))))"

text \<open>
  The \<open>while\<close> loop. In the goal branch of the pass the step record is built after the
  walk back, from the value \<open>current\<close> has then.
\<close>

partial_function (option) astar_loop ::
    "grid \<Rightarrow> int \<Rightarrow> int \<Rightarrow> cell \<Rightarrow> cell \<Rightarrow> astar_state \<Rightarrow> (py_error + astar_result) option" where
  "astar_loop gr rows cols start goal st =
     (case astar_pass gr rows cols start goal st of
        Leave r \<Rightarrow> r
      | Continue st' \<Rightarrow> astar_loop gr rows cols start goal st')"

declare astar_loop.simps [code]

text \<open>
  \<open>astar\<close> up to the loop: \<open>len(grid[0])\<close> raises IndexError on an empty grid; the
  frontier starts with the entry \<open>(0, start)\<close>.
\<close>

definition init_state :: "cell \<Rightarrow> astar_state" where
  "init_state start =
     \<lparr>open_set = heappush [] (0, start), came_from = Map.empty,
      g_score = [start \<mapsto> 0], steps = [], popped = []\<rparr>"

definition astar_run :: "grid \<Rightarrow> cell \<Rightarrow> cell \<Rightarrow> (py_error + astar_result) option" where
  "astar_run gr start goal =
     (case gr of
        [] \<Rightarrow> Some (Inl IndexError)
      | row0 # _ \<Rightarrow>
          astar_loop gr (int (length gr)) (int (length row0)) start goal (init_state start))"

text \<open>What \<open>astar\<close> returns: the path and the trace.\<close>

definition astar ::
    "grid \<Rightarrow> cell \<Rightarrow> cell \<Rightarrow> (py_error + cell list option \<times> step_record list) option" where
  "astar gr start goal =
     map_option (map_sum id (\<lambda>(path, trace, pops). (path, trace))) (astar_run gr start goal)"

section \<open>Maze generation\<close>

text \<open>
  \<open>random.shuffle\<close> draws from the interpreter's global generator. The generator is
  modelled by the sequence \<open>rnd\<close> of its raw draws and the number of draws used so far;
  \<open>randbelow(n)\<close> is the next draw reduced modulo \<open>n\<close>. The shuffle itself is the
  library's loop
  \<^verbatim>\<open>for i in reversed(range(1, len(x))): j = randbelow(i + 1); x[i], x[j] = x[j], x[i]\<close>.
\<close>

fun shuffle_from :: "(nat \<Rightarrow> nat) \<Rightarrow> nat \<Rightarrow> 'a list \<Rightarrow> nat \<Rightarrow> 'a list \<times> nat" where
  "shuffle_from rnd 0 xs pos = (xs, pos)"
| "shuffle_from rnd (Suc k) xs pos =
     (let i = Suc k; j = rnd pos mod (i + 1)
      in shuffle_from rnd k (xs[i := xs ! j, j := xs ! i]) (pos + 1))"

definition shuffle :: "(nat \<Rightarrow> nat) \<Rightarrow> 'a list \<Rightarrow> nat \<Rightarrow> 'a list \<times> nat" where
  "shuffle rnd xs pos = shuffle_from rnd (length xs - 1) xs pos"

text \<open>The state of a generation: the list \<open>maze\<close> and the number of draws used.\<close>

record gen_state =
  maze :: grid
  rng_pos :: nat

type_synonym nbr = "int \<times> int \<times> int \<times> int"

definition directions :: "(int \<times> int) list" where
  "directions = [(0, 2), (0, - 2), (2, 0), (- 2, 0)]"

definition get_neighbors ::
    "int \<Rightarrow> int \<Rightarrow> (nat \<Rightarrow> nat) \<Rightarrow> int \<Rightarrow> int \<Rightarrow> nat \<Rightarrow> nbr list \<times> nat" where
  "get_neighbors rows cols rnd r c pos =
     shuffle rnd
       (filter (\<lambda>(nr, nc, dr, dc). 0 \<le> nr \<and> nr < rows \<and> 0 \<le> nc \<and> nc < cols)
          (map (\<lambda>(dr, dc). (r + dr, c + dc, dr div 2, dc div 2)) directions))
       pos"

text \<open>
  \<open>visit\<close> calls itself; the first argument bounds the depth of the recursion, and
  \<open>None\<close> means that the bound was reached. \<open>visit_each\<close> is the \<open>for\<close> loop of
  \<open>visit(r, c)\<close> over the remaining neighbors.
\<close>

fun visit :: "nat \<Rightarrow> int \<Rightarrow> int \<Rightarrow> (nat \<Rightarrow> nat) \<Rightarrow> int \<Rightarrow> int \<Rightarrow> gen_state \<Rightarrow>
      (py_error + gen_state) option"
  and visit_each :: "nat \<Rightarrow> int \<Rightarrow> int \<Rightarrow> (nat \<Rightarrow> nat) \<Rightarrow> int \<Rightarrow> int \<Rightarrow> nbr list \<Rightarrow> gen_state \<Rightarrow>
      (py_error + gen_state) option" where
  "visit 0 rows cols rnd r c st = None"
| "visit (Suc depth) rows cols rnd r c st =
     (case grid_set (maze st) r c 0 of
        Inl e \<Rightarrow> Some (Inl e)
      | Inr m \<Rightarrow>
          (case get_neighbors rows cols rnd r c (rng_pos st) of (nbrs, pos) \<Rightarrow>
             visit_each depth rows cols rnd r c nbrs \<lparr>maze = m, rng_pos = pos\<rparr>))"
| "visit_each depth rows cols rnd r c [] st = Some (Inr st)"
| "visit_each depth rows cols rnd r c ((nr, nc, dr, dc) # rest) st =
     (case grid_get (maze st) nr nc of
        Inl e \<Rightarrow> Some (Inl e)
      | Inr v \<Rightarrow>
          if v = 1 then
            (case grid_set (maze st) (r + dr) (c + dc) 0 of
               Inl e \<Rightarrow> Some (Inl e)
             | Inr m \<Rightarrow>
                 (case visit depth rows cols rnd nr nc (st\<lparr>maze := m\<rparr>) of
                    None \<Rightarrow> None
                  | Some (Inl e) \<Rightarrow> Some (Inl e)
                  | Some (Inr st') \<Rightarrow> visit_each depth rows cols rnd r c rest st'))
          else visit_each depth rows cols rnd r c rest st)"

text \<open>
  \<open>generate_maze\<close>: the grid of walls, the walk from \<open>(0, 0)\<close>, then the two stores
  \<open>maze[0][0] = 0\<close> and \<open>maze[rows-1][cols-1] = 0\<close>. \<open>generate_maze_run\<close> also gives
  the number of draws the call has used.
\<close>

definition generate_maze_run ::
    "nat \<Rightarrow> int \<Rightarrow> int \<Rightarrow> (nat \<Rightarrow> nat) \<Rightarrow> (py_error + gen_state) option" where
  "generate_maze_run depth rows cols rnd =
     (case visit depth rows cols rnd 0 0
             \<lparr>maze = replicate (nat rows) (replicate (nat cols) 1), rng_pos = 0\<rparr> of
        None \<Rightarrow> None
      | Some (Inl e) \<Rightarrow> Some (Inl e)
      | Some (Inr st) \<Rightarrow>
          (case grid_set (maze st) 0 0 0 of
             Inl e \<Rightarrow> Some (Inl e)
           | Inr m1 \<Rightarrow>
               (case grid_set m1 (rows - 1) (cols - 1) 0 of
                  Inl e \<Rightarrow> Some (Inl e)
                | Inr m2 \<Rightarrow> Some (Inr (st\<lparr>maze := m2\<rparr>)))))"

definition generate_maze :: "nat \<Rightarrow> int \<Rightarrow> int \<Rightarrow> (nat \<Rightarrow> nat) \<Rightarrow> (py_error + grid) option" where
  "generate_maze depth rows cols rnd = map_option (map_sum id maze) (generate_maze_run depth rows cols rnd)"

section \<open>Vocabulary of the properties\<close>

text \<open>
  The test the search applies to a neighbor,
  \<open>0 <= nx < rows and 0 <= ny < cols and grid[nx][ny] == 0\<close>, with \<open>rows = len(grid)\<close>
  and \<open>cols = len(grid[0])\<close>.
\<close>

definition in_bounds :: "grid \<Rightarrow> cell \<Rightarrow> bool" where
  "in_bounds gr c =
     (case gr of
        [] \<Rightarrow> False
      | row0 # _ \<Rightarrow> 0 \<le> fst c \<and> fst c < int (length gr) \<and> 0 \<le> snd c \<and> snd c < int (length row0))"

definition cell_open :: "grid \<Rightarrow> cell \<Rightarrow> bool" where
  "cell_open gr c = (in_bounds gr c \<and> grid_get gr (fst c) (snd c) = Inr 0)"

text \<open>A grid is rectangular when every row is as long as the first.\<close>

definition rectangular :: "grid \<Rightarrow> bool" where
  "rectangular gr = (case gr of [] \<Rightarrow> True | row0 # _ \<Rightarrow> list_all (\<lambda>row. length row = length row0) gr)"

definition adjacent :: "cell \<Rightarrow> cell \<Rightarrow> bool" where
  "adjacent a b = (\<bar>fst a - fst b\<bar> + \<bar>snd a - snd b\<bar> = 1)"

text \<open>A walk: consecutive cells are 4-adjacent, and every cell is open.\<close>

fun walk :: "grid \<Rightarrow> cell list \<Rightarrow> bool" where
  "walk gr [] = True"
| "walk gr [a] = cell_open gr a"
| "walk gr (a # b # rest) = (cell_open gr a \<and> adjacent a b \<and> walk gr (b # rest))"

definition joins :: "grid \<Rightarrow> cell \<Rightarrow> cell \<Rightarrow> cell list \<Rightarrow> bool" where
  "joins gr a b p = (p \<noteq> [] \<and> hd p = a \<and> last p = b \<and> walk gr p)"

section \<open>Auxiliary notions for the search\<close>

text \<open>
  Names for pieces of one pass of the loop: the neighbor test, the update made when a
  neighbor improves, the four neighbors in the order of the source, the state after the
  pop, and the dictionary appended to the trace.
\<close>

definition passable :: "grid \<Rightarrow> int \<Rightarrow> int \<Rightarrow> cell \<Rightarrow> bool" where
  "passable gr rows cols c =
     (0 \<le> fst c \<and> fst c < rows \<and> 0 \<le> snd c \<and> snd c < cols \<and> grid_get gr (fst c) (snd c) = Inr 0)"

definition improve :: "cell \<Rightarrow> cell \<Rightarrow> cell \<Rightarrow> int \<Rightarrow> astar_state \<Rightarrow> astar_state" where
  "improve goal current nb tg st =
     st\<lparr>open_set := heappush (open_set st) (tg + heuristic nb goal, nb),
        came_from := (came_from st)(nb \<mapsto> current),
        g_score := (g_score st)(nb \<mapsto> tg)\<rparr>"

definition neighbors4 :: "cell \<Rightarrow> cell list" where
  "neighbors4 c = [(fst c + 1, snd c), (fst c - 1, snd c), (fst c, snd c + 1), (fst c, snd c - 1)]"

definition pop_state :: "astar_state \<Rightarrow> entry \<Rightarrow> entry list \<Rightarrow> astar_state" where
  "pop_state st e hp = st\<lparr>open_set := hp, popped := popped st @ [e]\<rparr>"

definition record_of :: "cell \<Rightarrow> int \<Rightarrow> int \<Rightarrow> int \<Rightarrow> nbr_eval list \<Rightarrow> status \<Rightarrow> step_record" where
  "record_of c gv hv fv nd s =
     \<lparr>step_node = c, step_g = gv, step_h = hv, step_f = fv, step_neighbors = nd, step_status = s\<rparr>"

text \<open>
  The invariant of the loop on the two dictionaries: the start has cost \<open>0\<close> and no
  predecessor, costs are not negative, every frontier entry is for a cell with a cost,
  every other cell with a cost has a predecessor, and a predecessor link joins adjacent
  cells, ends in a cell that passed the neighbor test, and goes down in cost.
\<close>

definition inv_dom :: "grid \<Rightarrow> int \<Rightarrow> int \<Rightarrow> cell \<Rightarrow> astar_state \<Rightarrow> bool" where
  "inv_dom gr rows cols start st \<longleftrightarrow>
     g_score st start = Some 0 \<and> came_from st start = None \<and>
     (\<forall>c v. g_score st c = Some v \<longrightarrow> 0 \<le> v) \<and>
     (\<forall>e \<in> set (open_set st). g_score st (snd e) \<noteq> None) \<and>
     (\<forall>c. g_score st c \<noteq> None \<longrightarrow> c \<noteq> start \<longrightarrow> came_from st c \<noteq> None) \<and>
     (\<forall>c p. came_from st c = Some p \<longrightarrow>
        passable gr rows cols c \<and> adjacent p c \<and>
        (\<exists>gp gc. g_score st p = Some gp \<and> g_score st c = Some gc \<and> gp + 1 \<le> gc))"


text \<open>
  \<open>links cf c chain cur\<close>: the list \<open>chain\<close> starts at \<open>c\<close>, follows the
  predecessor dictionary \<open>cf\<close> cell by cell, and the predecessor of its last cell is
  \<open>cur\<close> (for the empty list, \<open>c\<close> is \<open>cur\<close>).
\<close>

fun links :: "(cell \<rightharpoonup> cell) \<Rightarrow> cell \<Rightarrow> cell list \<Rightarrow> cell \<Rightarrow> bool" where
  "links cf c [] cur = (c = cur)"
| "links cf c (x # xs) cur = (x = c \<and> (case cf c of None \<Rightarrow> False | Some p \<Rightarrow> links cf p xs cur))"


definition inv_trace :: "cell \<Rightarrow> astar_state \<Rightarrow> bool" where
  "inv_trace goal st \<longleftrightarrow>
     length (steps st) = length (popped st) \<and>
     list_all (\<lambda>r. step_status r = Searching) (steps st) \<and>
     list_all (\<lambda>e. snd e \<noteq> goal) (popped st)"

definition stale_grid :: grid where
  "stale_grid = [[0, 1, 0, 0, 0], [0, 1, 0, 0, 0]]"

definition stale_trace :: "step_record list" where
  "stale_trace =
     [\<lparr>step_node = (1, 4), step_g = 0, step_h = 5, step_f = 0,
       step_neighbors = [((0, 4), 1, 4, 5), ((1, 3), 1, 4, 5)], step_status = Searching\<rparr>,
      \<lparr>step_node = (0, 4), step_g = 1, step_h = 4, step_f = 5,
       step_neighbors = [((1, 4), 2, 5, 7), ((0, 3), 2, 3, 5)], step_status = Searching\<rparr>,
      \<lparr>step_node = (0, 3), step_g = 2, step_h = 3, step_f = 5,
       step_neighbors = [((1, 3), 3, 4, 7), ((0, 4), 3, 4, 7), ((0, 2), 3, 2, 5)],
       step_status = Searching\<rparr>,
      \<lparr>step_node = (0, 2), step_g = 3, step_h = 2, step_f = 5,
       step_neighbors = [((1, 2), 4, 3, 7), ((0, 3), 4, 3, 7)], step_status = Searching\<rparr>,
      \<lparr>step_node = (1, 3), step_g = 1, step_h = 4, step_f = 5,
       step_neighbors = [((0, 3), 2, 3, 5), ((1, 4), 2, 5, 7), ((1, 2), 2, 3, 5)],
       step_status = Searching\<rparr>,
      \<lparr>step_node = (1, 2), step_g = 2, step_h = 3, step_f = 5,
       step_neighbors = [((0, 2), 3, 2, 5), ((1, 3), 3, 4, 7)], step_status = Searching\<rparr>,
      \<lparr>step_node = (1, 2), step_g = 2, step_h = 3, step_f = 7,
       step_neighbors = [((0, 2), 3, 2, 5), ((1, 3), 3, 4, 7)], step_status = Searching\<rparr>]"

definition stale_pops :: "entry list" where
  "stale_pops = [(0, 1, 4), (5, 0, 4), (5, 0, 3), (5, 0, 2), (5, 1, 3), (5, 1, 2), (7, 1, 2)]"

definition searching_records :: "step_record list \<Rightarrow> step_record list" where
  "searching_records tr = filter (\<lambda>r. step_status r = Searching) tr"

definition popped_cells :: "entry list \<Rightarrow> cell list" where
  "popped_cells pops = remdups (map snd pops)"


definition inv_heap :: "cell \<Rightarrow> cell \<Rightarrow> astar_state \<Rightarrow> bool" where
  "inv_heap start goal st \<longleftrightarrow>
     (popped st = [] \<longrightarrow> open_set st = [(0, start)] \<and> g_score st = [start \<mapsto> 0]) \<and>
     (popped st \<noteq> [] \<longrightarrow>
        (\<forall>e \<in> set (open_set st).
           \<exists>gc. g_score st (snd e) = Some gc \<and> gc + heuristic (snd e) goal \<le> fst e) \<and>
        (\<forall>c gc. g_score st c = Some gc \<longrightarrow> c \<notin> snd ` set (popped st) \<longrightarrow>
           (gc + heuristic c goal, c) \<in> set (open_set st)))"

definition rec_ok :: "entry list \<Rightarrow> nat \<Rightarrow> step_record \<Rightarrow> bool" where
  "rec_ok pops i r \<longleftrightarrow>
     (0 < i \<longrightarrow> step_g r + step_h r \<le> step_f r \<and>
        (snd (pops ! i) \<notin> snd ` set (take i pops) \<longrightarrow> step_f r = step_g r + step_h r))"

definition inv_rec :: "astar_state \<Rightarrow> bool" where
  "inv_rec st \<longleftrightarrow>
     length (steps st) = length (popped st) \<and>
     (\<forall>i < length (steps st). rec_ok (popped st) i (steps st ! i))"

section \<open>One pass of the loop\<close>

lemma heappop_single: "heappop [e] = (e, [])"
  by (simp add: heappop_def)

lemma walk_back_empty: "walk_back Map.empty c path = Some (path, c)"
  by (subst walk_back.simps) simp

lemma heuristic_self: "heuristic c c = 0"
  by (simp add: heuristic_def)

lemma relax_step_blocked:
  assumes "\<not> passable gr rows cols nb" and "relax_step gr rows cols goal cur nb (st, d) = Inr (st', d')"
  shows "st' = st \<and> d' = d"
proof -
  obtain nx ny where nb: "nb = (nx, ny)" by (cases nb)
  show ?thesis
  proof (cases "0 \<le> nx \<and> nx < rows \<and> 0 \<le> ny \<and> ny < cols")
    case False
    with assms(2) show ?thesis by (simp add: relax_step_def nb)
  next
    case True
    show ?thesis
    proof (cases "grid_get gr nx ny")
      case (Inl e)
      with True assms(2) show ?thesis by (simp add: relax_step_def nb)
    next
      case (Inr v)
      with True assms(1) have "v \<noteq> 0" by (auto simp: passable_def nb)
      with True Inr assms(2) show ?thesis by (simp add: relax_step_def nb)
    qed
  qed
qed

lemma relax_step_passable:
  assumes "passable gr rows cols nb"
  shows "relax_step gr rows cols goal cur nb (st, d) =
     (case g_score st cur of
        None \<Rightarrow> Inl KeyError
      | Some gc \<Rightarrow>
          if (case g_score st nb of None \<Rightarrow> True | Some old \<Rightarrow> gc + 1 < old)
          then Inr (improve goal cur nb (gc + 1) st,
                    d @ [(nb, gc + 1, heuristic nb goal, gc + 1 + heuristic nb goal)])
          else Inr (st, d @ [(nb, gc + 1, heuristic nb goal, gc + 1 + heuristic nb goal)]))"
proof -
  obtain nx ny where nb: "nb = (nx, ny)" by (cases nb)
  from assms have b: "0 \<le> nx \<and> nx < rows \<and> 0 \<le> ny \<and> ny < cols" and g: "grid_get gr nx ny = Inr 0"
    by (auto simp: passable_def nb)
  show ?thesis
  proof (cases "g_score st cur")
    case None
    then show ?thesis using b g by (simp add: relax_step_def nb)
  next
    case (Some gc)
    then show ?thesis using b g by (simp add: relax_step_def nb improve_def Let_def)
  qed
qed

lemma relax_step_cases:
  assumes "relax_step gr rows cols goal cur nb (st, d) = Inr (st', d')"
  obtains (same) "st' = st"
  | (improved) gc where "passable gr rows cols nb" "g_score st cur = Some gc"
      "\<forall>old. g_score st nb = Some old \<longrightarrow> gc + 1 < old" "st' = improve goal cur nb (gc + 1) st"
proof (cases "passable gr rows cols nb")
  case False
  from relax_step_blocked [OF False assms] show ?thesis using same by simp
next
  case True
  note u = relax_step_passable [OF True, of goal cur st d]
  from assms u obtain gc where gc: "g_score st cur = Some gc"
    by (cases "g_score st cur") auto
  show ?thesis
  proof (cases "case g_score st nb of None \<Rightarrow> True | Some old \<Rightarrow> gc + 1 < old")
    case c: True
    with assms u gc have "st' = improve goal cur nb (gc + 1) st" by simp
    moreover from c have "\<forall>old. g_score st nb = Some old \<longrightarrow> gc + 1 < old" by (simp split: option.splits)
    ultimately show ?thesis using improved True gc by blast
  next
    case False
    with assms u gc have "st' = st" by simp
    then show ?thesis by (rule same)
  qed
qed

lemma relax_preserves:
  assumes "relax gr rows cols goal cur ns acc = Inr acc'" and "P acc"
    and "\<And>a a' nb. P a \<Longrightarrow> nb \<in> set ns \<Longrightarrow> relax_step gr rows cols goal cur nb a = Inr a' \<Longrightarrow> P a'"
  shows "P acc'"
  using assms
proof (induction ns arbitrary: acc)
  case Nil
  then show ?case by simp
next
  case (Cons nb ns)
  from Cons.prems(1) obtain a where a: "relax_step gr rows cols goal cur nb acc = Inr a"
    and r: "relax gr rows cols goal cur ns a = Inr acc'"
    by (auto split: sum.splits)
  have pa: "P a" using Cons.prems(2) a Cons.prems(3) [of acc nb a] by simp
  have st: "\<And>a a' n. P a \<Longrightarrow> n \<in> set ns \<Longrightarrow> relax_step gr rows cols goal cur n a = Inr a' \<Longrightarrow> P a'"
  proof -
    fix a a' n
    assume "P a" "n \<in> set ns" "relax_step gr rows cols goal cur n a = Inr a'"
    then show "P a'" using Cons.prems(3) [of a n a'] by simp
  qed
  show ?case by (rule Cons.IH [OF r pa st])
qed

text \<open>The state part of the relaxation only: every step leaves the state or improves it.\<close>

lemma relax_state_preserves:
  assumes "relax gr rows cols goal cur ns (st, d) = Inr (st', d')" and "Q st"
    and "\<And>s nb gc. Q s \<Longrightarrow> nb \<in> set ns \<Longrightarrow> passable gr rows cols nb \<Longrightarrow> g_score s cur = Some gc \<Longrightarrow>
            \<forall>old. g_score s nb = Some old \<longrightarrow> gc + 1 < old \<Longrightarrow> Q (improve goal cur nb (gc + 1) s)"
  shows "Q st'"
proof -
  have "(\<lambda>a. Q (fst a)) (st', d')"
  proof (rule relax_preserves [OF assms(1)])
    show "Q (fst (st, d))" using assms(2) by simp
  next
    fix a a' nb
    assume q: "Q (fst a)" and nb: "nb \<in> set ns"
      and st: "relax_step gr rows cols goal cur nb a = Inr a'"
    obtain s dd where a: "a = (s, dd)" by (cases a)
    obtain s' dd' where a': "a' = (s', dd')" by (cases a')
    from st [unfolded a a'] show "Q (fst a')"
    proof (cases rule: relax_step_cases)
      case same
      then show ?thesis using q a a' by simp
    next
      case (improved gc)
      then show ?thesis using assms(3) [of s nb gc] q nb a a' by simp
    qed
  qed
  then show ?thesis by simp
qed

lemma heappop_facts:
  assumes "hp \<noteq> []" and "heappop hp = (e, hp')"
  shows "e \<in> set hp" and "\<forall>x \<in> set hp. e \<le> x" and "hp' = remove1 e hp"
  using assms by (auto simp: heappop_def Let_def)

lemma astar_pass_unfold:
  assumes "open_set st \<noteq> []" and "heappop (open_set st) = ((fv, c), hp)"
  shows "astar_pass gr rows cols start goal st =
     (case g_score st c of
        None \<Rightarrow> Leave (Some (Inl KeyError))
      | Some gc \<Rightarrow>
          if c = goal then
            Leave (map_option
              (\<lambda>(path, cur).
                 Inr (Some (rev (path @ [start])),
                      steps st @ [record_of cur gc (heuristic c goal) fv [] GoalReached],
                      popped st @ [(fv, c)]))
              (walk_back (came_from st) c []))
          else
            (case relax gr rows cols goal c (neighbors4 c) (pop_state st (fv, c) hp, []) of
               Inl e \<Rightarrow> Leave (Some (Inl e))
             | Inr (s2, nd) \<Rightarrow>
                 Continue (s2\<lparr>steps := steps s2 @
                   [record_of c gc (heuristic c goal) fv nd Searching]\<rparr>)))"
  using assms
  by (simp add: astar_pass_def Let_def neighbors4_def pop_state_def record_of_def
      cong: option.case_cong sum.case_cong if_cong)

lemma astar_pass_empty:
  "open_set st = [] \<Longrightarrow>
   astar_pass gr rows cols start goal st = Leave (Some (Inr (None, steps st, popped st)))"
  by (simp add: astar_pass_def)

lemma astar_pass_Continue:
  assumes "astar_pass gr rows cols start goal st = Continue st'"
  obtains fv c hp gc s2 nd where
    "open_set st \<noteq> []" "heappop (open_set st) = ((fv, c), hp)"
    "g_score st c = Some gc" "c \<noteq> goal"
    "relax gr rows cols goal c (neighbors4 c) (pop_state st (fv, c) hp, []) = Inr (s2, nd)"
    "st' = s2\<lparr>steps := steps s2 @ [record_of c gc (heuristic c goal) fv nd Searching]\<rparr>"
proof -
  have ne: "open_set st \<noteq> []" using assms by (auto simp: astar_pass_empty)
  obtain fv c hp where pop: "heappop (open_set st) = ((fv, c), hp)"
    by (cases "heappop (open_set st)") auto
  note u = astar_pass_unfold [OF ne pop, of gr rows cols start goal]
  obtain gc where gc: "g_score st c = Some gc"
    using assms u by (cases "g_score st c") auto
  have ng: "c \<noteq> goal" using assms u gc by (auto split: if_splits)
  obtain s2 nd where rl: "relax gr rows cols goal c (neighbors4 c) (pop_state st (fv, c) hp, []) = Inr (s2, nd)"
    using assms u gc ng
    by (cases "relax gr rows cols goal c (neighbors4 c) (pop_state st (fv, c) hp, [])") auto
  have "st' = s2\<lparr>steps := steps s2 @ [record_of c gc (heuristic c goal) fv nd Searching]\<rparr>"
    using assms u gc ng rl by simp
  with ne pop gc ng rl show ?thesis by (rule that)
qed

lemma astar_pass_Leave:
  assumes "astar_pass gr rows cols start goal st = Leave (Some (Inr res))"
  obtains (empty) "open_set st = []" "res = (None, steps st, popped st)"
  | (goal) fv hp gc path cur where
    "open_set st \<noteq> []" "heappop (open_set st) = ((fv, goal), hp)"
    "g_score st goal = Some gc" "walk_back (came_from st) goal [] = Some (path, cur)"
    "res = (Some (rev (path @ [start])),
            steps st @ [record_of cur gc 0 fv [] GoalReached],
            popped st @ [(fv, goal)])"
proof (cases "open_set st = []")
  case True
  with assms have "res = (None, steps st, popped st)" by (simp add: astar_pass_empty)
  with True show ?thesis by (rule empty)
next
  case ne: False
  obtain fv c hp where pop: "heappop (open_set st) = ((fv, c), hp)"
    by (cases "heappop (open_set st)") auto
  note u = astar_pass_unfold [OF ne pop, of gr rows cols start goal]
  obtain gc where gc: "g_score st c = Some gc"
    using assms u by (cases "g_score st c") auto
  have cg: "c = goal"
  proof (rule ccontr)
    assume "c \<noteq> goal"
    with assms u gc show False
      by (cases "relax gr rows cols goal c (neighbors4 c) (pop_state st (fv, c) hp, [])") auto
  qed
  obtain path cur where wb: "walk_back (came_from st) goal [] = Some (path, cur)"
    using assms u gc cg by (cases "walk_back (came_from st) goal []") auto
  have "res = (Some (rev (path @ [start])),
            steps st @ [record_of cur gc 0 fv [] GoalReached],
            popped st @ [(fv, goal)])"
    using assms u gc cg wb by (simp add: heuristic_self)
  with ne pop [unfolded cg] gc [unfolded cg] wb show ?thesis by (rule goal)
qed


section \<open>Rules for the loop\<close>

lemma astar_loop_rule:
  assumes run: "astar_loop gr rows cols start goal st = Some r" and inv: "I st"
    and step: "\<And>s s'. I s \<Longrightarrow> astar_pass gr rows cols start goal s = Continue s' \<Longrightarrow> I s'"
  shows "\<exists>s. I s \<and> astar_pass gr rows cols start goal s = Leave (Some r)"
proof -
  define Q where "Q = (\<lambda>gr' rows' cols' start' goal' st' (r' :: py_error + astar_result).
      gr' = gr \<longrightarrow> rows' = rows \<longrightarrow> cols' = cols \<longrightarrow> start' = start \<longrightarrow> goal' = goal \<longrightarrow> I st' \<longrightarrow>
      (\<exists>s. I s \<and> astar_pass gr rows cols start goal s = Leave (Some r')))"
  have "Q gr rows cols start goal st r"
  proof (rule astar_loop.raw_induct [where P = Q, OF _ run])
    fix loop gr' rows' cols' start' goal' st' r'
    assume IH: "\<And>a b c d e f y. loop a b c d e f = Some y \<Longrightarrow> Q a b c d e f y"
      and body: "(case astar_pass gr' rows' cols' start' goal' st' of
                    Continue s' \<Rightarrow> loop gr' rows' cols' start' goal' s' | Leave x \<Rightarrow> x) = Some r'"
    show "Q gr' rows' cols' start' goal' st' r'"
      unfolding Q_def
    proof (intro impI)
      assume eqs: "gr' = gr" "rows' = rows" "cols' = cols" "start' = start" "goal' = goal"
        and i: "I st'"
      show "\<exists>s. I s \<and> astar_pass gr rows cols start goal s = Leave (Some r')"
      proof (cases "astar_pass gr rows cols start goal st'")
        case (Continue s')
        with body eqs have "loop gr rows cols start goal s' = Some r'" by simp
        from IH [OF this] have "Q gr rows cols start goal s' r'" .
        moreover have "I s'" by (rule step [OF i Continue])
        ultimately show ?thesis unfolding Q_def by simp
      next
        case (Leave x)
        with body eqs have "x = Some r'" by simp
        with Leave i show ?thesis by (intro exI [of _ st']) simp
      qed
    qed
  qed
  with inv show ?thesis unfolding Q_def by simp
qed

lemma astar_loop_terminates:
  assumes "I st"
    and "\<And>s s'. I s \<Longrightarrow> astar_pass gr rows cols start goal s = Continue s' \<Longrightarrow> I s' \<and> m s' < (m s :: nat)"
    and "\<And>s. I s \<Longrightarrow> astar_pass gr rows cols start goal s \<noteq> Leave None"
  shows "\<exists>r. astar_loop gr rows cols start goal st = Some r"
  using assms(1)
proof (induction "m st" arbitrary: st rule: less_induct)
  case less
  show ?case
  proof (cases "astar_pass gr rows cols start goal st")
    case (Continue s')
    from assms(2) [OF less.prems Continue] have "I s'" "m s' < m st" by simp_all
    from less.hyps [OF this(2) this(1)] obtain r where r: "astar_loop gr rows cols start goal s' = Some r" ..
    have "astar_loop gr rows cols start goal st = astar_loop gr rows cols start goal s'"
      by (subst astar_loop.simps) (simp only: Continue pass.case)
    with r show ?thesis by simp
  next
    case (Leave x)
    with assms(3) [OF less.prems] obtain r where x: "x = Some r" by (cases x) auto
    have "astar_loop gr rows cols start goal st = x"
      by (subst astar_loop.simps) (simp only: Leave pass.case)
    with x show ?thesis by simp
  qed
qed

section \<open>The invariant of the dictionaries\<close>

lemma neighbors4_adjacent: "nb \<in> set (neighbors4 c) \<Longrightarrow> adjacent c nb"
  by (auto simp: neighbors4_def adjacent_def)

lemma adjacent_neighbors4: "adjacent c nb \<Longrightarrow> nb \<in> set (neighbors4 c)"
  by (cases c; cases nb) (auto simp: neighbors4_def adjacent_def)

lemma inv_domD:
  assumes "inv_dom gr rows cols start st"
  shows "g_score st start = Some 0" and "came_from st start = None"
    and "\<And>c v. g_score st c = Some v \<Longrightarrow> 0 \<le> v"
    and "\<And>e. e \<in> set (open_set st) \<Longrightarrow> g_score st (snd e) \<noteq> None"
    and "\<And>c. g_score st c \<noteq> None \<Longrightarrow> c \<noteq> start \<Longrightarrow> came_from st c \<noteq> None"
    and "\<And>c p. came_from st c = Some p \<Longrightarrow> passable gr rows cols c"
    and "\<And>c p. came_from st c = Some p \<Longrightarrow> adjacent p c"
    and "\<And>c p. came_from st c = Some p \<Longrightarrow>
           \<exists>gp gc. g_score st p = Some gp \<and> g_score st c = Some gc \<and> gp + 1 \<le> gc"
  using assms unfolding inv_dom_def by blast+

lemma inv_domI:
  assumes "g_score st start = Some 0" and "came_from st start = None"
    and "\<And>c v. g_score st c = Some v \<Longrightarrow> 0 \<le> v"
    and "\<And>e. e \<in> set (open_set st) \<Longrightarrow> g_score st (snd e) \<noteq> None"
    and "\<And>c. g_score st c \<noteq> None \<Longrightarrow> c \<noteq> start \<Longrightarrow> came_from st c \<noteq> None"
    and "\<And>c p. came_from st c = Some p \<Longrightarrow>
           passable gr rows cols c \<and> adjacent p c \<and>
           (\<exists>gp gc. g_score st p = Some gp \<and> g_score st c = Some gc \<and> gp + 1 \<le> gc)"
  shows "inv_dom gr rows cols start st"
  using assms unfolding inv_dom_def by blast

lemma inv_dom_init: "inv_dom gr rows cols start (init_state start)"
  by (simp add: inv_dom_def init_state_def heappush_def)

lemma inv_dom_pop:
  assumes "inv_dom gr rows cols start st" and "set hp \<subseteq> set (open_set st)"
  shows "inv_dom gr rows cols start (pop_state st e hp)"
proof -
  have "inv_dom gr rows cols start (st\<lparr>open_set := hp\<rparr>)"
  proof (rule inv_domI)
    fix e assume "e \<in> set (open_set (st\<lparr>open_set := hp\<rparr>))"
    with assms(2) have "e \<in> set (open_set st)" by auto
    from inv_domD(4) [OF assms(1) this]
    show "g_score (st\<lparr>open_set := hp\<rparr>) (snd e) \<noteq> None" by simp
  qed (use inv_domD [OF assms(1)] in simp_all)
  then show ?thesis unfolding inv_dom_def pop_state_def by simp
qed

lemma inv_dom_steps:
  assumes "inv_dom gr rows cols start st"
  shows "inv_dom gr rows cols start (st\<lparr>steps := x\<rparr>)"
  using assms unfolding inv_dom_def by simp

lemma inv_dom_improve:
  assumes inv: "inv_dom gr rows cols start s" and pas: "passable gr rows cols nb"
    and adj: "adjacent cur nb" and gc: "g_score s cur = Some gc"
    and imp: "\<forall>old. g_score s nb = Some old \<longrightarrow> gc + 1 < old"
  shows "inv_dom gr rows cols start (improve goal cur nb (gc + 1) s)"
proof -
  note D = inv_domD [OF inv]
  from D(3) gc have gc0: "0 \<le> gc" by blast
  from D(1) have gs: "g_score s start = Some 0" .
  with imp gc0 have ns: "nb \<noteq> start" by auto
  from imp gc have nc: "nb \<noteq> cur" by auto
  let ?s = "improve goal cur nb (gc + 1) s"
  have g': "g_score ?s = (g_score s)(nb \<mapsto> gc + 1)"
    and c': "came_from ?s = (came_from s)(nb \<mapsto> cur)"
    and o': "set (open_set ?s) = insert (gc + 1 + heuristic nb goal, nb) (set (open_set s))"
    by (simp_all add: improve_def heappush_def)
  have 1: "g_score ?s start = Some 0" using gs ns by (simp add: g')
  have 2: "came_from ?s start = None" using D(2) ns by (simp add: c')
  have 3: "\<forall>c v. g_score ?s c = Some v \<longrightarrow> 0 \<le> v"
    using D(3) gc0 unfolding g' by (metis fun_upd_apply option.inject add_increasing2 zero_le_one)
  have 4: "\<forall>e \<in> set (open_set ?s). g_score ?s (snd e) \<noteq> None"
    using D(4) unfolding g' o' by (metis fun_upd_apply insertE option.distinct(1) snd_conv)
  have 5: "\<forall>c. g_score ?s c \<noteq> None \<longrightarrow> c \<noteq> start \<longrightarrow> came_from ?s c \<noteq> None"
    using D(5) unfolding g' c' by (metis fun_upd_apply option.distinct(1))
  have 6: "\<forall>c p. came_from ?s c = Some p \<longrightarrow>
        passable gr rows cols c \<and> adjacent p c \<and>
        (\<exists>gp gc. g_score ?s p = Some gp \<and> g_score ?s c = Some gc \<and> gp + 1 \<le> gc)"
  proof (intro allI impI)
    fix c p
    assume cp: "came_from ?s c = Some p"
    show "passable gr rows cols c \<and> adjacent p c \<and>
        (\<exists>gp gc. g_score ?s p = Some gp \<and> g_score ?s c = Some gc \<and> gp + 1 \<le> gc)"
    proof (cases "c = nb")
      case True
      with cp have "p = cur" by (simp add: c')
      with True pas adj gc nc show ?thesis by (simp add: g')
    next
      case False
      with cp have old: "came_from s c = Some p" by (simp add: c')
      from D(6-8) [OF old] obtain gp gc' where o: "passable gr rows cols c" "adjacent p c"
        "g_score s p = Some gp" "g_score s c = Some gc'" "gp + 1 \<le> gc'"
        by blast
      show ?thesis
      proof (cases "p = nb")
        case True
        with o imp have "gc + 1 < gp" by simp
        with o False True show ?thesis by (simp add: g')
      next
        case pf: False
        with o False show ?thesis by (simp add: g')
      qed
    qed
  qed
  from 1 2 3 4 5 6 show ?thesis unfolding inv_dom_def by blast
qed

lemma heappop_subset:
  assumes "heappop hp = (e, hp')"
  shows "set hp' \<subseteq> set hp"
proof -
  from assms have "hp' = remove1 e hp" by (auto simp: heappop_def Let_def)
  then show ?thesis by (simp add: set_remove1_subset)
qed

lemma inv_dom_pass:
  assumes inv: "inv_dom gr rows cols start st"
    and pass: "astar_pass gr rows cols start goal st = Continue st'"
  shows "inv_dom gr rows cols start st'"
proof -
  from pass obtain fv c hp gc s2 nd where
    ne: "open_set st \<noteq> []" and pop: "heappop (open_set st) = ((fv, c), hp)"
    and rl: "relax gr rows cols goal c (neighbors4 c) (pop_state st (fv, c) hp, []) = Inr (s2, nd)"
    and st': "st' = s2\<lparr>steps := steps s2 @ [record_of c gc (heuristic c goal) fv nd Searching]\<rparr>"
    by (rule astar_pass_Continue)
  have "inv_dom gr rows cols start (pop_state st (fv, c) hp)"
    by (rule inv_dom_pop [OF inv heappop_subset [OF pop]])
  then have "inv_dom gr rows cols start s2"
  proof (rule relax_state_preserves [OF rl])
    fix s nb gc'
    assume "inv_dom gr rows cols start s" "nb \<in> set (neighbors4 c)" "passable gr rows cols nb"
      "g_score s c = Some gc'" "\<forall>old. g_score s nb = Some old \<longrightarrow> gc' + 1 < old"
    then show "inv_dom gr rows cols start (improve goal c nb (gc' + 1) s)"
      by (intro inv_dom_improve neighbors4_adjacent)
  qed
  then show ?thesis unfolding st' by (rule inv_dom_steps)
qed

section \<open>The walk back and the returned path\<close>

lemma links_append:
  "links cf c (xs @ [x]) cur \<longleftrightarrow> links cf c xs x \<and> cf x = Some cur"
proof (induction xs arbitrary: c)
  case Nil
  show ?case by (auto split: option.splits)
next
  case (Cons a xs)
  show ?case by (cases "cf c") (auto simp: Cons.IH)
qed

lemma walk_back_links:
  assumes "walk_back cf c acc = Some (path, cur)"
  shows "cf cur = None \<and> (\<forall>c0 pre. acc = pre \<and> links cf c0 pre c \<longrightarrow> links cf c0 path cur)"
proof -
  define Q where "Q = (\<lambda>cf' c acc (res :: cell list \<times> cell).
     cf' = cf \<longrightarrow> cf (snd res) = None \<and> (\<forall>c0. links cf c0 acc c \<longrightarrow> links cf c0 (fst res) (snd res)))"
  have "Q cf c acc (path, cur)"
  proof (rule walk_back.raw_induct [where P = Q, OF _ assms])
    fix wb cf' c acc res
    assume IH: "\<And>a b d y. wb a b d = Some y \<Longrightarrow> Q a b d y"
      and body: "(case cf' c of None \<Rightarrow> Some (acc, c) | Some prev \<Rightarrow> wb cf' prev (acc @ [c])) = Some res"
    show "Q cf' c acc res"
      unfolding Q_def
    proof (intro impI)
      assume e: "cf' = cf"
      show "cf (snd res) = None \<and> (\<forall>c0. links cf c0 acc c \<longrightarrow> links cf c0 (fst res) (snd res))"
      proof (cases "cf c")
        case None
        with body e have "res = (acc, c)" by simp
        with None show ?thesis by simp
      next
        case (Some prev)
        with body e have "wb cf prev (acc @ [c]) = Some res" by simp
        from IH [OF this] have q: "cf (snd res) = None"
          "\<And>c0. links cf c0 (acc @ [c]) prev \<Longrightarrow> links cf c0 (fst res) (snd res)"
          unfolding Q_def by blast+
        show ?thesis
        proof (intro conjI allI impI)
          show "cf (snd res) = None" by (rule q(1))
        next
          fix c0 assume "links cf c0 acc c"
          with Some have "links cf c0 (acc @ [c]) prev" by (simp add: links_append)
          then show "links cf c0 (fst res) (snd res)" by (rule q(2))
        qed
      qed
    qed
  qed
  then show ?thesis unfolding Q_def by auto
qed

lemma walk_back_start:
  assumes "walk_back cf c [] = Some (path, cur)"
  shows "cf cur = None" and "links cf c path cur"
  using walk_back_links [OF assms] by auto

lemma adjacent_sym: "adjacent a b = adjacent b a"
  by (simp add: adjacent_def abs_minus_commute)

lemma walk_snoc:
  "walk gr (xs @ [a]) \<longleftrightarrow> walk gr xs \<and> cell_open gr a \<and> (xs \<noteq> [] \<longrightarrow> adjacent (last xs) a)"
  by (induction gr xs rule: walk.induct) auto

lemma walk_Cons:
  "walk gr (a # xs) \<longleftrightarrow> cell_open gr a \<and> walk gr xs \<and> (xs \<noteq> [] \<longrightarrow> adjacent a (hd xs))"
  by (cases xs) auto

lemma walk_rev: "walk gr (rev xs) = walk gr xs"
proof (induction xs)
  case Nil
  show ?case by simp
next
  case (Cons a xs)
  show ?case
    by (simp only: rev.simps walk_snoc walk_Cons Cons.IH)
      (auto simp: last_rev adjacent_sym)
qed

lemma passable_cell_open:
  "passable (row0 # rest) (int (length (row0 # rest))) (int (length row0)) c = cell_open (row0 # rest) c"
  by (simp add: passable_def cell_open_def in_bounds_def)

text \<open>A chain of predecessor links, read from its first cell, is a walk backwards.\<close>

lemma links_walk:
  assumes inv: "inv_dom gr rows cols start st"
    and op: "\<And>c. passable gr rows cols c \<Longrightarrow> cell_open gr' c"
    and cur: "cell_open gr' cur"
  shows "links (came_from st) c chain cur \<Longrightarrow> walk gr' (chain @ [cur]) \<and> hd (chain @ [cur]) = c"
proof (induction chain arbitrary: c)
  case Nil
  with cur show ?case by simp
next
  case (Cons x xs)
  from Cons.prems obtain p where x: "x = c" and p: "came_from st c = Some p"
    and l: "links (came_from st) p xs cur"
    by (auto split: option.splits)
  from Cons.IH [OF l] have w: "walk gr' (xs @ [cur])" and h: "hd (xs @ [cur]) = p" by simp_all
  from inv_domD(6,7) [OF inv p] op have "cell_open gr' c" "adjacent p c" by simp_all
  with w h x show ?case by (simp add: walk_Cons adjacent_sym)
qed

lemma links_cost:
  assumes inv: "inv_dom gr rows cols start st"
  shows "links (came_from st) c chain cur \<Longrightarrow> g_score st c = Some gc \<Longrightarrow>
         \<exists>gcur. g_score st cur = Some gcur \<and> gcur + int (length chain) \<le> gc"
proof (induction chain arbitrary: c gc)
  case Nil
  then show ?case by simp
next
  case (Cons x xs)
  from Cons.prems(1) obtain p where p: "came_from st c = Some p"
    and l: "links (came_from st) p xs cur"
    by (auto split: option.splits)
  from inv_domD(8) [OF inv p] Cons.prems(2) obtain gp where gp: "g_score st p = Some gp" "gp + 1 \<le> gc"
    by auto
  from Cons.IH [OF l gp(1)] obtain gcur where "g_score st cur = Some gcur" "gcur + int (length xs) \<le> gp"
    by blast
  with gp(2) show ?case by simp
qed

lemma links_end_in_dom:
  assumes inv: "inv_dom gr rows cols start st"
  shows "links (came_from st) c chain cur \<Longrightarrow> g_score st c \<noteq> None \<Longrightarrow> g_score st cur \<noteq> None"
proof (induction chain arbitrary: c)
  case Nil
  then show ?case by simp
next
  case (Cons x xs)
  from Cons.prems(1) obtain p where p: "came_from st c = Some p"
    and l: "links (came_from st) p xs cur"
    by (auto split: option.splits)
  from inv_domD(8) [OF inv p] have "g_score st p \<noteq> None" by auto
  from Cons.IH [OF l this] show ?case .
qed

text \<open>The state in which the loop is left.\<close>

lemma astar_run_final:
  assumes run: "astar_run gr start goal = Some (Inr res)"
    and init: "\<And>rows cols. I rows cols (init_state start)"
    and step: "\<And>rows cols s s'. I rows cols s \<Longrightarrow>
        astar_pass gr rows cols start goal s = Continue s' \<Longrightarrow> I rows cols s'"
  obtains row0 rest s where "gr = row0 # rest"
    "I (int (length gr)) (int (length row0)) s"
    "astar_pass gr (int (length gr)) (int (length row0)) start goal s = Leave (Some (Inr res))"
proof (cases gr)
  case Nil
  with run show ?thesis by (simp add: astar_run_def)
next
  case (Cons row0 rest)
  with run have "astar_loop gr (int (length gr)) (int (length row0)) start goal (init_state start) = Some (Inr res)"
    by (simp add: astar_run_def)
  then have "\<exists>s. I (int (length gr)) (int (length row0)) s \<and>
      astar_pass gr (int (length gr)) (int (length row0)) start goal s = Leave (Some (Inr res))"
    by (rule astar_loop_rule [where I = "I (int (length gr)) (int (length row0))"]) (rule init, rule step)
  then obtain s where "I (int (length gr)) (int (length row0)) s \<and>
      astar_pass gr (int (length gr)) (int (length row0)) start goal s = Leave (Some (Inr res))" ..
  then have "I (int (length gr)) (int (length row0)) s"
    "astar_pass gr (int (length gr)) (int (length row0)) start goal s = Leave (Some (Inr res))"
    by simp_all
  with Cons show ?thesis by (rule that)
qed

lemma astar_to_run:
  assumes "astar gr start goal = Some (Inr (p, tr))"
  obtains pops where "astar_run gr start goal = Some (Inr (p, tr, pops))"
proof (cases "astar_run gr start goal")
  case None
  with assms show ?thesis by (simp add: astar_def)
next
  case (Some r)
  show ?thesis
  proof (cases r)
    case (Inl e)
    with Some assms show ?thesis by (simp add: astar_def)
  next
    case (Inr x)
    obtain p' tr' pops where x: "x = (p', tr', pops)" by (cases x)
    with Some Inr assms have "p' = p" "tr' = tr" by (simp_all add: astar_def)
    with Some Inr x show ?thesis using that by simp
  qed
qed

text \<open>
  C2. For every grid and every in-bounds, open start and goal, a path returned by
  \<open>astar\<close> consists of open cells, consecutive cells are 4-adjacent, its first cell is
  the start and its last cell is the goal.
\<close>

theorem astar_path_valid:
  assumes s: "cell_open gr start" and g: "cell_open gr goal"
    and run: "astar gr start goal = Some (Inr (Some path, tr))"
  shows "walk gr path \<and> path \<noteq> [] \<and> hd path = start \<and> last path = goal"
proof -
  from run obtain pops where r: "astar_run gr start goal = Some (Inr (Some path, tr, pops))"
    by (rule astar_to_run)
  from r obtain row0 rest st where gr: "gr = row0 # rest"
    and inv: "inv_dom gr (int (length gr)) (int (length row0)) start st"
    and leave: "astar_pass gr (int (length gr)) (int (length row0)) start goal st =
        Leave (Some (Inr (Some path, tr, pops)))"
    by (rule astar_run_final [where I = "\<lambda>rows cols. inv_dom gr rows cols start"])
      (rule inv_dom_init, rule inv_dom_pass)
  from leave show ?thesis
  proof (cases rule: astar_pass_Leave)
    case empty
    then show ?thesis by simp
  next
    case (goal fv hp gc chain cur)
    from walk_back_start [OF goal(4)] have cn: "came_from st cur = None"
      and l: "links (came_from st) goal chain cur" .
    have "g_score st goal \<noteq> None" using goal(3) by simp
    from links_end_in_dom [OF inv l this] have "g_score st cur \<noteq> None" .
    with inv_domD(5) [OF inv this] cn have cur: "cur = start" by auto
    have op: "\<And>c. passable gr (int (length gr)) (int (length row0)) c \<Longrightarrow> cell_open gr c"
      unfolding gr by (simp only: passable_cell_open)
    from links_walk [OF inv op, of start goal chain] s l cur
    have w: "walk gr (chain @ [start])" and h: "hd (chain @ [start]) = goal" by simp_all
    from goal(5) have p: "path = rev (chain @ [start])" by simp
    have "walk gr path" unfolding p walk_rev by (rule w)
    moreover have "hd path = start" unfolding p by simp
    moreover have "last path = goal" unfolding p using h by (simp only: last_rev)
    moreover have "path \<noteq> []" unfolding p by simp
    ultimately show ?thesis by simp
  qed
qed

theorem astar_path_valid_witness:
  "cell_open [[0, 0], [1, 0]] (0, 0) \<and> cell_open [[0, 0], [1, 0]] (1, 1) \<and>
   astar [[0, 0], [1, 0]] (0, 0) (1, 1) =
     Some (Inr (Some [(0, 0), (0, 1), (1, 1)],
       [\<lparr>step_node = (0, 0), step_g = 0, step_h = 2, step_f = 0,
         step_neighbors = [((0, 1), 1, 1, 2)], step_status = Searching\<rparr>,
        \<lparr>step_node = (0, 1), step_g = 1, step_h = 1, step_f = 2,
         step_neighbors = [((1, 1), 2, 0, 2), ((0, 0), 2, 2, 4)], step_status = Searching\<rparr>,
        \<lparr>step_node = (0, 0), step_g = 2, step_h = 0, step_f = 2,
         step_neighbors = [], step_status = GoalReached\<rparr>])) \<and>
   walk [[0, 0], [1, 0]] [(0, 0), (0, 1), (1, 1)] \<and>
   hd [(0, 0), (0, 1), (1, 1 :: int)] = (0, 0 :: int) \<and> last [(0, 0), (0, 1), (1, 1 :: int)] = (1, 1 :: int)"
proof -
  have s: "cell_open [[0, 0], [1, 0]] (0, 0)" and g: "cell_open [[0, 0], [1, 0]] (1, 1)"
    by (simp_all add: cell_open_def in_bounds_def grid_get_def py_get_def)
  have r: "astar [[0, 0], [1, 0]] (0, 0) (1, 1) =
     Some (Inr (Some [(0, 0), (0, 1), (1, 1)],
       [\<lparr>step_node = (0, 0), step_g = 0, step_h = 2, step_f = 0,
         step_neighbors = [((0, 1), 1, 1, 2)], step_status = Searching\<rparr>,
        \<lparr>step_node = (0, 1), step_g = 1, step_h = 1, step_f = 2,
         step_neighbors = [((1, 1), 2, 0, 2), ((0, 0), 2, 2, 4)], step_status = Searching\<rparr>,
        \<lparr>step_node = (0, 0), step_g = 2, step_h = 0, step_f = 2,
         step_neighbors = [], step_status = GoalReached\<rparr>]))"
    by code_simp
  from astar_path_valid [OF s g r] s g r show ?thesis by simp
qed

section \<open>The trace and the pops\<close>

lemma improve_keeps [simp]:
  "steps (improve goal cur nb tg s) = steps s" "popped (improve goal cur nb tg s) = popped s"
  by (simp_all add: improve_def)

lemma relax_keeps:
  assumes "relax gr rows cols goal cur ns (st, d) = Inr (st', d')"
  shows "steps st' = steps st \<and> popped st' = popped st"
  by (rule relax_state_preserves [OF assms, where Q = "\<lambda>s. steps s = steps st \<and> popped s = popped st"])
    simp_all

lemma inv_trace_init: "inv_trace goal (init_state start)"
  by (simp add: inv_trace_def init_state_def)

lemma inv_trace_pass:
  assumes inv: "inv_trace goal st"
    and pass: "astar_pass gr rows cols start goal st = Continue st'"
  shows "inv_trace goal st'"
proof -
  from pass obtain fv c hp gc s2 nd where
    ne: "open_set st \<noteq> []" and cg: "c \<noteq> goal"
    and rl: "relax gr rows cols goal c (neighbors4 c) (pop_state st (fv, c) hp, []) = Inr (s2, nd)"
    and st': "st' = s2\<lparr>steps := steps s2 @ [record_of c gc (heuristic c goal) fv nd Searching]\<rparr>"
    by (rule astar_pass_Continue)
  from relax_keeps [OF rl] have k: "steps s2 = steps st" "popped s2 = popped st @ [(fv, c)]"
    by (simp_all add: pop_state_def)
  from inv cg show ?thesis
    by (simp add: inv_trace_def st' k record_of_def)
qed

text \<open>
  C4, as amended. For every complete \<open>astar\<close> call the number of records with status
  Searching equals the number of pops of the frontier that returned a cell other than the
  goal, each pop counted, also a second pop of a cell through a stale entry; the trace
  has one record for each pop; and if a path is returned, the last record has status
  GoalReached and an empty neighbor list.
\<close>

theorem astar_trace_counts_pops:
  assumes "astar_run gr start goal = Some (Inr (p, tr, pops))"
  shows "length (filter (\<lambda>r. step_status r = Searching) tr) = length (filter (\<lambda>e. snd e \<noteq> goal) pops) \<and>
         length tr = length pops \<and>
         (p \<noteq> None \<longrightarrow> tr \<noteq> [] \<and> step_status (last tr) = GoalReached \<and> step_neighbors (last tr) = [])"
proof -
  from assms obtain row0 rest st where gr: "gr = row0 # rest"
    and inv: "inv_trace goal st"
    and leave: "astar_pass gr (int (length gr)) (int (length row0)) start goal st =
        Leave (Some (Inr (p, tr, pops)))"
    by (rule astar_run_final [where I = "\<lambda>rows cols. inv_trace goal"])
      (rule inv_trace_init, rule inv_trace_pass)
  from inv have len: "length (steps st) = length (popped st)"
    and a: "filter (\<lambda>r. step_status r = Searching) (steps st) = steps st"
    and b: "filter (\<lambda>e. snd e \<noteq> goal) (popped st) = popped st"
    by (simp_all add: inv_trace_def list_all_iff)
  from leave show ?thesis
  proof (cases rule: astar_pass_Leave)
    case empty
    with len a b show ?thesis by simp
  next
    case (goal fv hp gc chain cur)
    with len a b show ?thesis by (simp add: record_of_def)
  qed
qed

lemma stale_run: "astar_run stale_grid (1, 4) (0, 0) = Some (Inr (None, stale_trace, stale_pops))"
  by code_simp

theorem astar_stale_pop_counterexample:
  "cell_open stale_grid (1, 4) \<and> cell_open stale_grid (0, 0) \<and>
   astar_run stale_grid (1, 4) (0, 0) = Some (Inr (None, stale_trace, stale_pops)) \<and>
   length (searching_records stale_trace) = 7 \<and>
   length (popped_cells stale_pops) = 6"
proof -
  have "cell_open stale_grid (1, 4)" "cell_open stale_grid (0, 0)"
    by (simp_all add: cell_open_def in_bounds_def grid_get_def py_get_def stale_grid_def)
  moreover have "length (searching_records stale_trace) = 7"
    by (simp add: searching_records_def stale_trace_def)
  moreover have "length (popped_cells stale_pops) = 6"
    by (simp add: popped_cells_def stale_pops_def)
  ultimately show ?thesis using stale_run by simp
qed

theorem astar_trace_counts_pops_witness:
  "astar_run stale_grid (1, 4) (0, 0) = Some (Inr (None, stale_trace, stale_pops)) \<and>
   length (filter (\<lambda>r. step_status r = Searching) stale_trace) = 7 \<and>
   length (filter (\<lambda>e. snd e \<noteq> (0, 0)) stale_pops) = 7 \<and>
   length stale_trace = length stale_pops \<and>
   astar_run [[0, 0]] (0, 0) (0, 1) =
     Some (Inr (Some [(0, 0), (0, 1)],
                [\<lparr>step_node = (0, 0), step_g = 0, step_h = 1, step_f = 0,
                  step_neighbors = [((0, 1), 1, 0, 1)], step_status = Searching\<rparr>,
                 \<lparr>step_node = (0, 0), step_g = 1, step_h = 0, step_f = 1,
                  step_neighbors = [], step_status = GoalReached\<rparr>],
                [(0, 0, 0), (1, 0, 1)])) \<and>
   step_status (last [\<lparr>step_node = (0, 0), step_g = 0, step_h = 1, step_f = 0,
                  step_neighbors = [((0, 1), 1, 0, 1)], step_status = Searching\<rparr>,
                 \<lparr>step_node = (0, 0), step_g = 1, step_h = 0, step_f = 1,
                  step_neighbors = [], step_status = GoalReached\<rparr>]) = GoalReached"
proof -
  have r: "astar_run [[0, 0]] (0, 0) (0, 1) =
     Some (Inr (Some [(0, 0), (0, 1)],
                [\<lparr>step_node = (0, 0), step_g = 0, step_h = 1, step_f = 0,
                  step_neighbors = [((0, 1), 1, 0, 1)], step_status = Searching\<rparr>,
                 \<lparr>step_node = (0, 0), step_g = 1, step_h = 0, step_f = 1,
                  step_neighbors = [], step_status = GoalReached\<rparr>],
                [(0, 0, 0), (1, 0, 1)]))"
    by code_simp
  have n: "length (filter (\<lambda>e. snd e \<noteq> (0, 0)) stale_pops) = 7"
    by (simp add: stale_pops_def)
  from astar_trace_counts_pops [OF stale_run] astar_trace_counts_pops [OF r] n stale_run r
  show ?thesis by simp
qed

section \<open>The frontier and the recorded f\<close>

lemma inv_heapD:
  assumes "inv_heap start goal st" and "popped st \<noteq> []"
  shows "\<And>e. e \<in> set (open_set st) \<Longrightarrow>
           \<exists>gc. g_score st (snd e) = Some gc \<and> gc + heuristic (snd e) goal \<le> fst e"
    and "\<And>c gc. g_score st c = Some gc \<Longrightarrow> c \<notin> snd ` set (popped st) \<Longrightarrow>
           (gc + heuristic c goal, c) \<in> set (open_set st)"
  using assms unfolding inv_heap_def by blast+

lemma inv_heapI:
  assumes "popped st \<noteq> []"
    and "\<And>e. e \<in> set (open_set st) \<Longrightarrow>
           \<exists>gc. g_score st (snd e) = Some gc \<and> gc + heuristic (snd e) goal \<le> fst e"
    and "\<And>c gc. g_score st c = Some gc \<Longrightarrow> c \<notin> snd ` set (popped st) \<Longrightarrow>
           (gc + heuristic c goal, c) \<in> set (open_set st)"
  shows "inv_heap start goal st"
  using assms unfolding inv_heap_def by blast

lemma inv_heap_init: "inv_heap start goal (init_state start)"
  by (simp add: inv_heap_def init_state_def heappush_def)

lemma inv_heap_first:
  assumes "inv_heap start goal st" and "popped st = []"
  shows "open_set st = [(0, start)]" and "g_score st = [start \<mapsto> 0]"
  using assms unfolding inv_heap_def by blast+

lemma inv_heap_pop:
  assumes inv: "inv_heap start goal st" and ne: "open_set st \<noteq> []"
    and pop: "heappop (open_set st) = ((fv, c), hp)"
  shows "inv_heap start goal (pop_state st (fv, c) hp)"
proof (rule inv_heapI)
  let ?s = "pop_state st (fv, c) hp"
  have g: "g_score ?s = g_score st" and o: "open_set ?s = hp"
    and p: "popped ?s = popped st @ [(fv, c)]"
    by (simp_all add: pop_state_def)
  from heappop_facts [OF ne pop] have mem: "(fv, c) \<in> set (open_set st)"
    and hp: "hp = remove1 (fv, c) (open_set st)" by simp_all
  show "popped ?s \<noteq> []" by (simp add: p)
  show "\<exists>gc. g_score ?s (snd e) = Some gc \<and> gc + heuristic (snd e) goal \<le> fst e"
    if e: "e \<in> set (open_set ?s)" for e
  proof (cases "popped st = []")
    case True
    from inv_heap_first(1) [OF inv True] hp have "hp = []" using mem by simp
    with e o show ?thesis by simp
  next
    case False
    from e o hp have "e \<in> set (open_set st)" by (metis notin_set_remove1)
    from inv_heapD(1) [OF inv False this] show ?thesis by (simp add: g)
  qed
  show "(gc + heuristic x goal, x) \<in> set (open_set ?s)"
    if gx: "g_score ?s x = Some gc" and nx: "x \<notin> snd ` set (popped ?s)" for x gc
  proof (cases "popped st = []")
    case True
    from inv_heap_first [OF inv True] mem have "c = start" "g_score st = [start \<mapsto> 0]" by simp_all
    with gx g have "x = c" by (simp split: if_splits)
    with nx p show ?thesis by simp
  next
    case False
    from nx p have xc: "x \<noteq> c" and xp: "x \<notin> snd ` set (popped st)" by auto
    from inv_heapD(2) [OF inv False gx [unfolded g] xp]
    have "(gc + heuristic x goal, x) \<in> set (open_set st)" .
    with xc have "(gc + heuristic x goal, x) \<in> set (remove1 (fv, c) (open_set st))" by simp
    then show ?thesis by (simp add: pop_state_def hp)
  qed
qed

lemma inv_heap_improve:
  assumes inv: "inv_heap start goal s" and ne: "popped s \<noteq> []"
    and gc: "g_score s cur = Some gc"
    and imp: "\<forall>old. g_score s nb = Some old \<longrightarrow> gc + 1 < old"
  shows "inv_heap start goal (improve goal cur nb (gc + 1) s)"
proof (rule inv_heapI)
  let ?s = "improve goal cur nb (gc + 1) s"
  have g': "g_score ?s = (g_score s)(nb \<mapsto> gc + 1)"
    and o': "set (open_set ?s) = insert (gc + 1 + heuristic nb goal, nb) (set (open_set s))"
    and p': "popped ?s = popped s"
    by (simp_all add: improve_def heappush_def)
  show "popped ?s \<noteq> []" using ne by (simp add: p')
  show "\<exists>g. g_score ?s (snd e) = Some g \<and> g + heuristic (snd e) goal \<le> fst e"
    if e: "e \<in> set (open_set ?s)" for e
  proof (cases "snd e = nb")
    case True
    show ?thesis
    proof (cases "e = (gc + 1 + heuristic nb goal, nb)")
      case True
      then show ?thesis by (simp add: g')
    next
      case False
      with e o' have "e \<in> set (open_set s)" by simp
      from inv_heapD(1) [OF inv ne this] obtain old where
        old: "g_score s (snd e) = Some old" "old + heuristic (snd e) goal \<le> fst e" by blast
      with imp True have "gc + 1 < old" by simp
      with old True show ?thesis by (simp add: g')
    qed
  next
    case False
    with e o' have "e \<in> set (open_set s)" by auto
    from inv_heapD(1) [OF inv ne this] False show ?thesis by (simp add: g')
  qed
  show "(g + heuristic x goal, x) \<in> set (open_set ?s)"
    if gx: "g_score ?s x = Some g" and nx: "x \<notin> snd ` set (popped ?s)" for x g
  proof (cases "x = nb")
    case True
    with gx have "g = gc + 1" by (simp add: g')
    with True show ?thesis by (simp add: o')
  next
    case False
    with gx have "g_score s x = Some g" by (simp add: g')
    from inv_heapD(2) [OF inv ne this] nx show ?thesis by (simp add: o' p')
  qed
qed

lemma inv_heap_steps: "inv_heap start goal (s\<lparr>steps := x\<rparr>) = inv_heap start goal s"
  by (simp add: inv_heap_def)

lemma inv_heap_pass:
  assumes inv: "inv_heap start goal st"
    and pass: "astar_pass gr rows cols start goal st = Continue st'"
  shows "inv_heap start goal st' \<and> popped st' \<noteq> []"
proof -
  from pass obtain fv c hp gc s2 nd where
    ne: "open_set st \<noteq> []" and pop: "heappop (open_set st) = ((fv, c), hp)"
    and rl: "relax gr rows cols goal c (neighbors4 c) (pop_state st (fv, c) hp, []) = Inr (s2, nd)"
    and st': "st' = s2\<lparr>steps := steps s2 @ [record_of c gc (heuristic c goal) fv nd Searching]\<rparr>"
    by (rule astar_pass_Continue)
  let ?J = "\<lambda>s. inv_heap start goal s \<and> popped s \<noteq> []"
  have "?J (pop_state st (fv, c) hp)"
    using inv_heap_pop [OF inv ne pop] by (simp add: pop_state_def)
  then have "?J s2"
  proof (rule relax_state_preserves [OF rl])
    fix s nb gc'
    assume "?J s" "g_score s c = Some gc'" "\<forall>old. g_score s nb = Some old \<longrightarrow> gc' + 1 < old"
    then show "?J (improve goal c nb (gc' + 1) s)"
      using inv_heap_improve [of start goal s c gc' nb] by simp
  qed
  then show ?thesis unfolding st' by (simp add: inv_heap_steps)
qed

lemma rec_ok_append:
  assumes "i < length pops"
  shows "rec_ok (pops @ [e]) i r = rec_ok pops i r"
  using assms by (simp add: rec_ok_def nth_append)

lemma entry_le_same_cell: "(a, c) \<le> (b, c :: cell) \<Longrightarrow> a \<le> (b :: int)"
  by (auto simp: less_eq_prod_def)

text \<open>The record built for the entry that a pass pops.\<close>

lemma rec_ok_popped:
  assumes inv: "inv_heap start goal st" and ne: "open_set st \<noteq> []"
    and pop: "heappop (open_set st) = ((fv, c), hp)" and gc: "g_score st c = Some gc"
    and r: "step_g r = gc" "step_h r = heuristic c goal" "step_f r = fv"
  shows "rec_ok (popped st @ [(fv, c)]) (length (popped st)) r"
proof (cases "popped st = []")
  case True
  then show ?thesis by (simp add: rec_ok_def)
next
  case False
  from heappop_facts [OF ne pop] have mem: "(fv, c) \<in> set (open_set st)"
    and least: "\<forall>x \<in> set (open_set st). (fv, c) \<le> x" by simp_all
  from inv_heapD(1) [OF inv False mem] gc have lo: "gc + heuristic c goal \<le> fv" by simp
  have "fv = gc + heuristic c goal" if "c \<notin> snd ` set (popped st)"
  proof -
    from inv_heapD(2) [OF inv False gc that] least
    have "(fv, c) \<le> (gc + heuristic c goal, c)" by blast
    then have "fv \<le> gc + heuristic c goal" by (rule entry_le_same_cell)
    with lo show ?thesis by simp
  qed
  with lo show ?thesis by (simp add: rec_ok_def r)
qed

lemma inv_rec_init: "inv_rec (init_state start)"
  by (simp add: inv_rec_def init_state_def)

lemma inv_rec_snoc:
  assumes "inv_rec st" and "rec_ok (popped st @ [e]) (length (popped st)) r"
    and "steps st' = steps st @ [r]" and "popped st' = popped st @ [e]"
  shows "inv_rec st'"
proof -
  from assms(1) have len: "length (steps st) = length (popped st)"
    and ok: "\<And>i. i < length (steps st) \<Longrightarrow> rec_ok (popped st) i (steps st ! i)"
    by (simp_all add: inv_rec_def)
  have "rec_ok (popped st') i (steps st' ! i)" if "i < length (steps st')" for i
  proof (cases "i < length (steps st)")
    case True
    with ok [OF True] len show ?thesis
      by (simp add: assms(3,4) rec_ok_append nth_append)
  next
    case False
    with that have "i = length (steps st)" by (simp add: assms(3))
    with assms(2) len show ?thesis by (simp add: assms(3,4) nth_append)
  qed
  with len show ?thesis by (simp add: inv_rec_def assms(3,4))
qed

lemma inv_rec_pass:
  assumes inv: "inv_heap start goal st" and rec: "inv_rec st"
    and pass: "astar_pass gr rows cols start goal st = Continue st'"
  shows "inv_rec st'"
proof -
  from pass obtain fv c hp gc s2 nd where
    ne: "open_set st \<noteq> []" and pop: "heappop (open_set st) = ((fv, c), hp)"
    and gc: "g_score st c = Some gc"
    and rl: "relax gr rows cols goal c (neighbors4 c) (pop_state st (fv, c) hp, []) = Inr (s2, nd)"
    and st': "st' = s2\<lparr>steps := steps s2 @ [record_of c gc (heuristic c goal) fv nd Searching]\<rparr>"
    by (rule astar_pass_Continue)
  from relax_keeps [OF rl] have k: "steps s2 = steps st" "popped s2 = popped st @ [(fv, c)]"
    by (simp_all add: pop_state_def)
  show ?thesis
  proof (rule inv_rec_snoc [OF rec])
    show "rec_ok (popped st @ [(fv, c)]) (length (popped st))
            (record_of c gc (heuristic c goal) fv nd Searching)"
      by (rule rec_ok_popped [OF inv ne pop gc]) (simp_all add: record_of_def)
    show "steps st' = steps st @ [record_of c gc (heuristic c goal) fv nd Searching]"
      by (simp add: st' k)
    show "popped st' = popped st @ [(fv, c)]" by (simp add: st' k)
  qed
qed

text \<open>
  C5, as amended. In the trace of every complete \<open>astar\<close> call, every record after the
  first has \<open>f \<ge> g + h\<close>, and \<open>f = g + h\<close> when the cell it was popped for had not been
  popped before. (The record \<open>i\<close> of the trace belongs to the pop \<open>i\<close>. Nothing is
  said of the first record, and a record for a cell popped again may keep the larger
  \<open>f\<close> of a stale entry.)
\<close>

theorem astar_f_after_first:
  assumes "astar_run gr start goal = Some (Inr (p, tr, pops))"
  shows "length tr = length pops \<and>
         (\<forall>i < length tr. 0 < i \<longrightarrow>
            step_g (tr ! i) + step_h (tr ! i) \<le> step_f (tr ! i) \<and>
            (snd (pops ! i) \<notin> snd ` set (take i pops) \<longrightarrow>
               step_f (tr ! i) = step_g (tr ! i) + step_h (tr ! i)))"
proof -
  let ?I = "\<lambda>(rows :: int) (cols :: int) s. inv_heap start goal s \<and> inv_rec s"
  from assms obtain row0 rest st where gr: "gr = row0 # rest"
    and inv: "?I (int (length gr)) (int (length row0)) st"
    and leave: "astar_pass gr (int (length gr)) (int (length row0)) start goal st =
        Leave (Some (Inr (p, tr, pops)))"
  proof (rule astar_run_final [where I = ?I])
    show "?I rows cols (init_state start)" for rows cols
      by (simp add: inv_heap_init inv_rec_init)
    show "?I rows cols s'" if "?I rows cols s" "astar_pass gr rows cols start goal s = Continue s'"
      for rows cols s s'
      using that inv_heap_pass [of start goal s gr rows cols s'] inv_rec_pass [of start goal s gr rows cols s']
      by simp
  qed
  from inv have ih: "inv_heap start goal st" and ir: "inv_rec st" by simp_all
  have "inv_rec \<lparr>open_set = [], came_from = Map.empty, g_score = Map.empty, steps = tr, popped = pops\<rparr>"
    using leave
  proof (cases rule: astar_pass_Leave)
    case empty
    with ir show ?thesis by (simp add: inv_rec_def)
  next
    case (goal fv hp gc chain cur)
    show ?thesis
    proof (rule inv_rec_snoc [OF ir])
      show "rec_ok (popped st @ [(fv, goal)]) (length (popped st)) (record_of cur gc 0 fv [] GoalReached)"
        by (rule rec_ok_popped [OF ih goal(1,2,3)]) (simp_all add: record_of_def heuristic_self)
    qed (use goal(5) in simp_all)
  qed
  then show ?thesis by (simp add: inv_rec_def rec_ok_def)
qed

theorem astar_f_after_first_witness:
  "astar_run stale_grid (1, 4) (0, 0) = Some (Inr (None, stale_trace, stale_pops)) \<and>
   length stale_trace = length stale_pops \<and>
   step_f (stale_trace ! 5) = step_g (stale_trace ! 5) + step_h (stale_trace ! 5) \<and>
   step_g (stale_trace ! 6) + step_h (stale_trace ! 6) \<le> step_f (stale_trace ! 6)"
proof -
  note t = astar_f_after_first [OF stale_run]
  have n: "snd (stale_pops ! 5) \<notin> snd ` set (take 5 stale_pops)"
    by (simp add: stale_pops_def)
  have l: "length stale_trace = 7" by (simp add: stale_trace_def)
  from t l have "step_f (stale_trace ! 5) = step_g (stale_trace ! 5) + step_h (stale_trace ! 5)"
    using n by force
  moreover from t l have "step_g (stale_trace ! 6) + step_h (stale_trace ! 6) \<le> step_f (stale_trace ! 6)"
    by force
  ultimately show ?thesis using stale_run t by simp
qed

theorem astar_f_counterexample:
  "cell_open stale_grid (1, 4) \<and> cell_open stale_grid (0, 0) \<and>
   astar stale_grid (1, 4) (0, 0) = Some (Inr (None, stale_trace)) \<and>
   step_f (stale_trace ! 6) = 7 \<and> step_g (stale_trace ! 6) + step_h (stale_trace ! 6) = 5 \<and>
   step_f (stale_trace ! 0) = 0 \<and> step_g (stale_trace ! 0) + step_h (stale_trace ! 0) = 5"
proof -
  have "cell_open stale_grid (1, 4)" "cell_open stale_grid (0, 0)"
    by (simp_all add: cell_open_def in_bounds_def grid_get_def py_get_def stale_grid_def)
  moreover have "astar stale_grid (1, 4) (0, 0) = Some (Inr (None, stale_trace))"
    by (simp add: astar_def stale_run)
  ultimately show ?thesis by (simp add: stale_trace_def)
qed

section \<open>Search from a cell to itself\<close>

text \<open>
  C10. For every grid and every open in-bounds cell \<open>s\<close>, \<open>astar(grid, s, s)\<close> returns
  the path \<open>[s]\<close> and a trace of exactly one record: node \<open>s\<close>, status GoalReached, no
  neighbors, and \<open>g\<close>, \<open>h\<close> and \<open>f\<close> all \<open>0\<close>.
\<close>

theorem astar_start_is_goal:
  assumes "cell_open gr s"
  shows "astar gr s s =
           Some (Inr (Some [s],
                      [\<lparr>step_node = s, step_g = 0, step_h = 0, step_f = 0,
                        step_neighbors = [], step_status = GoalReached\<rparr>]))"
proof -
  from assms obtain row0 rest where gr: "gr = row0 # rest"
    by (cases gr) (auto simp: cell_open_def in_bounds_def)
  have pass: "\<And>rows cols. astar_pass gr rows cols s s (init_state s) =
      Leave (Some (Inr (Some [s],
                      [\<lparr>step_node = s, step_g = 0, step_h = 0, step_f = 0,
                        step_neighbors = [], step_status = GoalReached\<rparr>], [(0, s)])))"
    by (simp add: astar_pass_def init_state_def heappop_single walk_back_empty heuristic_self
        heappush_def)
  show ?thesis
    unfolding astar_def astar_run_def gr list.case
    by (subst astar_loop.simps) (simp add: pass [unfolded gr])
qed

theorem astar_start_is_goal_witness:
  "cell_open [[1, 0], [0, 0]] (0, 1) \<and>
   astar [[1, 0], [0, 0]] (0, 1) (0, 1) =
     Some (Inr (Some [(0, 1)],
                [\<lparr>step_node = (0, 1), step_g = 0, step_h = 0, step_f = 0,
                  step_neighbors = [], step_status = GoalReached\<rparr>]))"
proof -
  have o: "cell_open [[1, 0], [0, 0]] (0, 1)"
    by (simp add: cell_open_def in_bounds_def grid_get_def py_get_def)
  show ?thesis using o astar_start_is_goal [OF o] by simp
qed

section \<open>The record of the goal\<close>

text \<open>
  C3. On the first pop of the goal the search appends one record for the popped cell,
  whose node is the goal, with status GoalReached and no neighbors, and returns the path.
  On the grid \<open>[[0, 0]]\<close> from \<open>(0, 0)\<close> to \<open>(0, 1)\<close> the source returns the path
  \<open>[(0, 0), (0, 1)]\<close>, and its last record has the node \<open>(0, 0)\<close>, which is the start:
  the record is built from \<open>current\<close> after the walk back has moved it.
\<close>

theorem astar_goal_record_node:
  "astar [[0, 0]] (0, 0) (0, 1) =
     Some (Inr (Some [(0, 0), (0, 1)],
                [\<lparr>step_node = (0, 0), step_g = 0, step_h = 1, step_f = 0,
                  step_neighbors = [((0, 1), 1, 0, 1)], step_status = Searching\<rparr>,
                 \<lparr>step_node = (0, 0), step_g = 1, step_h = 0, step_f = 1,
                  step_neighbors = [], step_status = GoalReached\<rparr>]))"
  by code_simp

end
